theory Spec2Isabelle
  imports Main "HOL-Library.Sublist"
begin

section \<open>Python string operations used by \<open>neo4j_patch.py\<close>\<close>

text \<open>
  Python strings are modelled as \<^typ>\<open>string\<close> (lists of characters).
  \<open>str_replace old new s\<close> is \<^verbatim>\<open>s.replace(old, new)\<close>: every non-overlapping
  occurrence of \<open>old\<close>, found from the left, is replaced by \<open>new\<close>. With an empty
  \<open>old\<close> Python puts \<open>new\<close> before every character and at the end.
\<close>

fun str_replace :: "string \<Rightarrow> string \<Rightarrow> string \<Rightarrow> string" where
  "str_replace [] new s = new @ concat (map (\<lambda>c. c # new) s)"
| "str_replace (a # old) new [] = []"
| "str_replace (a # old) new (c # cs) =
     (if prefix (a # old) (c # cs)
      then new @ str_replace (a # old) new (drop (length old) cs)
      else c # str_replace (a # old) new cs)"

text \<open>\<open>str_in sub s\<close> is the substring test \<^verbatim>\<open>sub in s\<close>.\<close>

fun str_in :: "string \<Rightarrow> string \<Rightarrow> bool" where
  "str_in sub [] = (sub = [])"
| "str_in sub (c # cs) = (prefix sub (c # cs) \<or> str_in sub cs)"

text \<open>
  \<open>str_count sub s\<close> is \<^verbatim>\<open>s.count(sub)\<close>: the number of non-overlapping
  occurrences of \<open>sub\<close>, counted from the left (\<open>len(s) + 1\<close> for an empty \<open>sub\<close>).
\<close>

fun str_count :: "string \<Rightarrow> string \<Rightarrow> nat" where
  "str_count [] s = Suc (length s)"
| "str_count (a # sub) [] = 0"
| "str_count (a # sub) (c # cs) =
     (if prefix (a # sub) (c # cs)
      then Suc (str_count (a # sub) (drop (length sub) cs))
      else str_count (a # sub) cs)"

text \<open>\<open>strip_chars chars s\<close> is \<^verbatim>\<open>s.strip(chars)\<close>: leading and trailing characters
  that belong to \<open>chars\<close> are removed.\<close>

definition lstrip_chars :: "string \<Rightarrow> string \<Rightarrow> string" where
  "lstrip_chars chars s = dropWhile (\<lambda>c. c \<in> set chars) s"

definition rstrip_chars :: "string \<Rightarrow> string \<Rightarrow> string" where
  "rstrip_chars chars s = rev (dropWhile (\<lambda>c. c \<in> set chars) (rev s))"

definition strip_chars :: "string \<Rightarrow> string \<Rightarrow> string" where
  "strip_chars chars s = rstrip_chars chars (lstrip_chars chars s)"

section \<open>The token sanitizer: \<open>sanitize_relationship_type\<close>\<close>

lemma length_str_replace_le:
  "length new \<le> length old \<Longrightarrow> old \<noteq> [] \<Longrightarrow> length (str_replace old new s) \<le> length s"
proof (induction old new s rule: str_replace.induct)
  case (3 a old new c cs)
  show ?case
  proof (cases "prefix (a # old) (c # cs)")
    case True
    then have len: "length old \<le> length cs"
      using prefix_length_le by fastforce
    have "length (str_replace (a # old) new (drop (length old) cs))
        \<le> length (drop (length old) cs)"
      using "3.IH"(1) [OF True] "3.prems" by blast
    moreover have "length new \<le> Suc (length old)"
      using "3.prems" by simp
    moreover have "str_replace (a # old) new (c # cs)
        = new @ str_replace (a # old) new (drop (length old) cs)"
      using True by simp
    ultimately show ?thesis using len by simp
  next
    case False
    have "length (str_replace (a # old) new cs) \<le> length cs"
      using "3.IH"(2) [OF False] "3.prems" by blast
    moreover have "str_replace (a # old) new (c # cs) = c # str_replace (a # old) new cs"
      using False by auto
    ultimately show ?thesis by simp
  qed
qed simp_all

lemma length_str_replace_less:
  "length new < length old \<Longrightarrow> str_in old s
    \<Longrightarrow> length (str_replace old new s) < length s"
proof (induction old new s rule: str_replace.induct)
  case (3 a old new c cs)
  show ?case
  proof (cases "prefix (a # old) (c # cs)")
    case True
    then have len: "length old \<le> length cs"
      using prefix_length_le by fastforce
    have "length (str_replace (a # old) new (drop (length old) cs))
        \<le> length (drop (length old) cs)"
      using length_str_replace_le [of new "a # old" "drop (length old) cs"] "3.prems"
      by simp
    moreover have "length new < Suc (length old)"
      using "3.prems" by simp
    moreover have "str_replace (a # old) new (c # cs)
        = new @ str_replace (a # old) new (drop (length old) cs)"
      using True by simp
    ultimately show ?thesis using len by simp
  next
    case False
    then have "str_in (a # old) cs"
      using "3.prems"(2) by auto
    then have "length (str_replace (a # old) new cs) < length cs"
      using "3.IH"(2) [OF False] "3.prems"(1) by blast
    moreover have "str_replace (a # old) new (c # cs) = c # str_replace (a # old) new cs"
      using False by auto
    ultimately show ?thesis by simp
  qed
qed simp_all

text \<open>
  The loop \<^verbatim>\<open>while '__' in sanitized: sanitized = sanitized.replace('__', '_')\<close>.
  Every round shortens the string, so the loop ends.
\<close>

function collapse_underscores :: "string \<Rightarrow> string" where
  "collapse_underscores s =
     (if str_in ''__'' s then collapse_underscores (str_replace ''__'' ''_'' s) else s)"
  by pat_completeness auto
termination
  by (relation "measure length") (simp_all add: length_str_replace_less)

declare collapse_underscores.simps [simp del]

text \<open>
  \<open>sanitize_relationship_type\<close>, line by line. The debug log line is a diagnostic
  with no effect on the result and is left out.
\<close>

definition sanitize_relationship_type :: "string \<Rightarrow> string" where
  "sanitize_relationship_type relationship_type =
     (if relationship_type = [] then relationship_type
      else
        let sanitized = str_replace '':'' ''_'' relationship_type;
            sanitized = str_replace ''/'' ''_'' sanitized;
            sanitized = str_replace [CHR 0x5C] ''_'' sanitized;
            sanitized = str_replace '' '' ''_'' sanitized;
            sanitized = str_replace ''-'' ''_'' sanitized;
            sanitized = collapse_underscores sanitized;
            sanitized = strip_chars ''_'' sanitized
        in sanitized)"

text \<open>\<open>replaced s\<close> is the value of \<^verbatim>\<open>sanitized\<close> after the five \<^verbatim>\<open>replace\<close> calls
  (lines 32 to 38), named for the proofs.\<close>

definition replaced :: "string \<Rightarrow> string" where
  "replaced s = str_replace ''-'' ''_'' (str_replace '' '' ''_'' (str_replace [CHR 0x5C] ''_''
     (str_replace ''/'' ''_'' (str_replace '':'' ''_'' s))))"

section \<open>The structure walker: \<open>sanitize_graph_data\<close>\<close>

text \<open>
  The values the walker tells apart with \<^verbatim>\<open>isinstance\<close>: a \<^verbatim>\<open>dict\<close> (its items
  in iteration order, keys being strings), a \<^verbatim>\<open>list\<close>, a \<^verbatim>\<open>str\<close>, and anything
  else (numbers, booleans, \<^verbatim>\<open>None\<close>, other objects), kept opaque as \<open>'a\<close>.
\<close>

datatype 'a payload =
    PDict "(string \<times> 'a payload) list"
  | PList "'a payload list"
  | PStr string
  | POther 'a

text \<open>
  \<open>dict_set d key v\<close> is the assignment \<^verbatim>\<open>d[key] = v\<close> on a dictionary kept as its
  item list: an existing key keeps its place and gets the new value, a new key goes last.
\<close>

fun dict_set :: "('k \<times> 'v) list \<Rightarrow> 'k \<Rightarrow> 'v \<Rightarrow> ('k \<times> 'v) list" where
  "dict_set [] key v = [(key, v)]"
| "dict_set ((k, w) # d) key v = (if k = key then (k, v) # d else (k, w) # dict_set d key v)"

text \<open>The relationship-designator keys of line 68.\<close>

definition designator_keys :: "string list" where
  "designator_keys = [''relationship'', ''relation'', ''rel_type'', ''type'', ''relationship_type'']"

text \<open>
  \<open>sanitize_graph_data\<close>, branch by branch. The \<^verbatim>\<open>for\<close> loop over
  \<^verbatim>\<open>data.items()\<close> is a fold that starts from the empty \<^verbatim>\<open>result\<close> and assigns one key
  per round; the list comprehension is a \<open>map\<close>.
\<close>

fun sanitize_graph_data :: "'a payload \<Rightarrow> 'a payload" where
  "sanitize_graph_data (PDict items) =
     PDict (fold (\<lambda>kv result.
                    if fst kv \<in> set designator_keys
                    then (case snd kv of
                            PStr s \<Rightarrow> dict_set result (fst kv) (PStr (sanitize_relationship_type s))
                          | _ \<Rightarrow> dict_set result (fst kv) (sanitize_graph_data (snd kv)))
                    else dict_set result (fst kv) (sanitize_graph_data (snd kv)))
                 items [])"
| "sanitize_graph_data (PList xs) = PList (map sanitize_graph_data xs)"
| "sanitize_graph_data (PStr s) =
     (if str_count '':'' s > 1 then PStr (sanitize_relationship_type s) else PStr s)"
| "sanitize_graph_data (POther x) = POther x"

text \<open>
  A Python \<^verbatim>\<open>dict\<close> holds each key once. \<open>well_formed p\<close> says that the item list of
  every dictionary in \<open>p\<close> does: it is the invariant of the representation, true of
  every payload the walker can receive.
\<close>

fun well_formed :: "'a payload \<Rightarrow> bool" where
  "well_formed (PDict items) =
     (distinct (map fst items) \<and> list_all (\<lambda>kv. well_formed (snd kv)) items)"
| "well_formed (PList xs) = list_all well_formed xs"
| "well_formed (PStr s) = True"
| "well_formed (POther x) = True"

text \<open>
  \<open>differs_only_in_labels p q\<close>: \<open>q\<close> has the shape of \<open>p\<close> (dictionaries with the same
  keys in the same order, lists of the same length, strings where \<open>p\<close> has strings, the
  same other values), and the only places where it may hold another value are the
  strings under a designator key and the other strings with more than one colon.
\<close>

fun differs_only_in_labels :: "'a payload \<Rightarrow> 'a payload \<Rightarrow> bool" where
  "differs_only_in_labels (PDict items) q =
     (case q of
        PDict items' \<Rightarrow>
          map fst items' = map fst items \<and>
          list_all2 (\<lambda>kv kv'.
              case snd kv of
                PStr s \<Rightarrow>
                  if fst kv \<in> set designator_keys
                  then (case snd kv' of PStr t \<Rightarrow> True | _ \<Rightarrow> False)
                  else differs_only_in_labels (snd kv) (snd kv')
              | _ \<Rightarrow> differs_only_in_labels (snd kv) (snd kv'))
            items items'
      | _ \<Rightarrow> False)"
| "differs_only_in_labels (PList xs) q =
     (case q of PList ys \<Rightarrow> list_all2 differs_only_in_labels xs ys | _ \<Rightarrow> False)"
| "differs_only_in_labels (PStr s) q =
     (case q of
        PStr t \<Rightarrow> if 1 < length (filter (\<lambda>c. c = CHR '':'') s) then True else t = s
      | _ \<Rightarrow> False)"
| "differs_only_in_labels (POther x) q = (q = POther x)"

section \<open>The query rewriter inside \<open>patched_query\<close>\<close>

text \<open>
  The pattern of line 144 is \<^verbatim>\<open>-\[(?:r)?:([^\]]+)\]->\<close>. \<open>match_type_arrow\<close> matches its
  tail \<^verbatim>\<open>:([^\]]+)\]->\<close> at the start of a string and returns group 1 with the text
  after the match. The greedy class \<^verbatim>\<open>[^\]]+\<close> takes every character up to the first
  \<^verbatim>\<open>]\<close> (or the end); giving characters back cannot help, since the character after a
  shorter token is not \<^verbatim>\<open>]\<close>, so the longest token is the only candidate.
\<close>

definition match_type_arrow :: "string \<Rightarrow> (string \<times> string) option" where
  "match_type_arrow s =
     (case s of
        [] \<Rightarrow> None
      | c # t \<Rightarrow>
          if c = CHR '':'' then
            (let rel_type = takeWhile (\<lambda>x. x \<noteq> CHR '']'') t;
                 after = dropWhile (\<lambda>x. x \<noteq> CHR '']'') t
             in if rel_type \<noteq> [] \<and> prefix '']->'' after
                then Some (rel_type, drop 3 after) else None)
          else None)"

text \<open>
  \<open>match_edge s\<close> matches the whole pattern at the start of \<open>s\<close>: after \<^verbatim>\<open>-[\<close> the
  optional \<^verbatim>\<open>r\<close> is tried first and, when the tail does not match after it, the tail is
  tried without it. The result is \<^verbatim>\<open>(match.group(0), match.group(1))\<close> and the text
  after the match.
\<close>

definition match_edge :: "string \<Rightarrow> (string \<times> string \<times> string) option" where
  "match_edge s =
     (if prefix ''-['' s then
        (let s1 = drop 2 s;
             m = (case (if prefix ''r'' s1 then match_type_arrow (drop 1 s1) else None) of
                    Some m \<Rightarrow> Some m
                  | None \<Rightarrow> match_type_arrow s1)
         in case m of
              None \<Rightarrow> None
            | Some (rel_type, rest) \<Rightarrow> Some (take (length s - length rest) s, rel_type, rest))
      else None)"

text \<open>The callback of lines 137 to 141, given \<^verbatim>\<open>match.group(0)\<close> and \<^verbatim>\<open>match.group(1)\<close>.\<close>

definition replace_relationship_type :: "string \<Rightarrow> string \<Rightarrow> string" where
  "replace_relationship_type full_match rel_type =
     (let sanitized = sanitize_relationship_type rel_type
      in str_replace rel_type sanitized full_match)"

lemma match_type_arrow_shorter:
  "match_type_arrow s = Some (rel_type, rest) \<Longrightarrow> length rest < length s"
proof -
  assume m: "match_type_arrow s = Some (rel_type, rest)"
  then obtain c t where s: "s = c # t"
    by (cases s) (auto simp: match_type_arrow_def)
  from m s have "rest = drop 3 (dropWhile (\<lambda>x. x \<noteq> CHR '']'') t)"
    by (auto simp: match_type_arrow_def Let_def split: if_splits)
  moreover have "length (dropWhile (\<lambda>x. x \<noteq> CHR '']'') t) \<le> length t"
    by (rule length_dropWhile_le)
  ultimately show ?thesis using s by simp
qed

lemma match_edge_shorter:
  "match_edge s = Some (full_match, rel_type, rest) \<Longrightarrow> length rest < length s"
proof -
  assume m: "match_edge s = Some (full_match, rel_type, rest)"
  then have "match_type_arrow (drop 1 (drop 2 s)) = Some (rel_type, rest)
      \<or> match_type_arrow (drop 2 s) = Some (rel_type, rest)"
    by (auto simp: match_edge_def Let_def simp del: drop_drop split: if_splits option.splits)
  then have "length rest < length (drop 1 (drop 2 s)) \<or> length rest < length (drop 2 s)"
    using match_type_arrow_shorter by blast
  then show ?thesis by auto
qed

text \<open>
  \<^verbatim>\<open>re.sub(pattern, replace_relationship_type, query)\<close>: the scan goes left to right;
  where the pattern matches, the callback's result is emitted and the scan goes on after
  the match (a match is never empty); elsewhere the character is copied.
\<close>

function re_sub_edge :: "string \<Rightarrow> string" where
  "re_sub_edge [] = []"
| "re_sub_edge (c # cs) =
     (case match_edge (c # cs) of
        Some (full_match, rel_type, rest) \<Rightarrow>
          replace_relationship_type full_match rel_type @ re_sub_edge rest
      | None \<Rightarrow> c # re_sub_edge cs)"
  by pat_completeness auto
termination
  by (relation "measure length") (auto dest: match_edge_shorter)

text \<open>
  \<open>patched_query\<close> (lines 131 to 151) around the original method. The method's result
  type \<open>'r\<close> is arbitrary: it can be a value, or a computation with the effects and
  exceptions of the original. \<^verbatim>\<open>params\<close> defaults to \<^verbatim>\<open>None\<close>.
\<close>

definition patched_query ::
    "('self \<Rightarrow> string \<Rightarrow> 'p option \<Rightarrow> 'r) \<Rightarrow> 'self \<Rightarrow> string \<Rightarrow> 'p option \<Rightarrow> 'r" where
  "patched_query original_query self query params =
     (let sanitized_query = re_sub_edge query
      in original_query self sanitized_query params)"

text \<open>\<open>patched_add\<close> (lines 103 to 109) around the original method.\<close>

definition patched_add ::
    "('self \<Rightarrow> 'a payload \<Rightarrow> 'f option \<Rightarrow> 'r) \<Rightarrow> 'self \<Rightarrow> 'a payload \<Rightarrow> 'f option \<Rightarrow> 'r" where
  "patched_add original_add self data filters =
     (let sanitized_data = sanitize_graph_data data
      in original_add self sanitized_data filters)"

text \<open>
  \<open>scan_reaches n s\<close>: the left-to-right scan of \<open>re_sub_edge\<close> over \<open>s\<close> arrives
  at offset \<open>n\<close>, that is, no match found further left runs across \<open>n\<close>. It
  follows the recursion of \<open>re_sub_edge\<close>.
\<close>

function scan_reaches :: "nat \<Rightarrow> string \<Rightarrow> bool" where
  "scan_reaches 0 s = True"
| "scan_reaches (Suc n) [] = False"
| "scan_reaches (Suc n) (c # cs) =
     (case match_edge (c # cs) of
        Some (full_match, rel_type, rest) \<Rightarrow>
          length full_match \<le> Suc n \<and> scan_reaches (Suc n - length full_match) rest
      | None \<Rightarrow> scan_reaches n cs)"
  by pat_completeness auto
termination
  by (relation "measure (\<lambda>(n, s). length s)") (auto dest: match_edge_shorter)

text \<open>\<open>occurrences sub s\<close>: the offsets at which \<open>sub\<close> occurs in \<open>s\<close>, in order.\<close>

definition occurrences :: "string \<Rightarrow> string \<Rightarrow> nat list" where
  "occurrences sub s = filter (\<lambda>i. prefix sub (drop i s)) [0..<Suc (length s)]"

section \<open>The interception installer\<close>

text \<open>
  An exception raised inside a \<^verbatim>\<open>try\<close> block of the installer, with its message
  \<^verbatim>\<open>str(e)\<close>. \<open>ImportError\<close> stands for an instance of \<^verbatim>\<open>ImportError\<close> or of a
  subclass (\<^verbatim>\<open>ModuleNotFoundError\<close>), \<open>OtherException\<close> for an instance of any other
  subclass of \<^verbatim>\<open>Exception\<close> (\<^verbatim>\<open>AttributeError\<close>, \<^verbatim>\<open>TypeError\<close>, ...).
  \<open>SystemExit\<close> and \<open>KeyboardInterrupt\<close> stand for the exceptions that derive from
  \<^verbatim>\<open>BaseException\<close> and not from \<^verbatim>\<open>Exception\<close>: a module that calls
  \<^verbatim>\<open>sys.exit()\<close> while it is imported raises the first, an interrupt during the import
  the second.
\<close>

datatype exn =
    ImportError (message: string)
  | OtherException (message: string)
  | SystemExit (message: string)
  | KeyboardInterrupt (message: string)

text \<open>\<^verbatim>\<open>isinstance(e, ImportError)\<close> and \<^verbatim>\<open>isinstance(e, Exception)\<close>: what the
  clauses \<^verbatim>\<open>except ImportError\<close> and \<^verbatim>\<open>except Exception\<close> test.\<close>

fun is_ImportError :: "exn \<Rightarrow> bool" where
  "is_ImportError (ImportError m) = True"
| "is_ImportError (OtherException m) = False"
| "is_ImportError (SystemExit m) = False"
| "is_ImportError (KeyboardInterrupt m) = False"

fun is_Exception :: "exn \<Rightarrow> bool" where
  "is_Exception (ImportError m) = True"
| "is_Exception (OtherException m) = True"
| "is_Exception (SystemExit m) = False"
| "is_Exception (KeyboardInterrupt m) = False"

datatype level = Debug | Info | Warning | Error

text \<open>
  The part of the process the installer reads and writes. For each of the two external
  classes: the exception its \<^verbatim>\<open>import\<close> statement raises (if any), what reading the
  method attribute gives (the method, or an exception), and the exception that assigning
  the attribute raises (if any). \<open>log\<close> holds the records the module's logger has
  emitted, oldest first.
\<close>

record ('add, 'query) process =
  GraphMemory_import :: "exn option"
  GraphMemory_add :: "exn + 'add"
  GraphMemory_setattr :: "exn option"
  Neo4jGraph_import :: "exn option"
  Neo4jGraph_query :: "exn + 'query"
  Neo4jGraph_setattr :: "exn option"
  log :: "(level \<times> string) list"

definition logger ::
    "level \<Rightarrow> string \<Rightarrow> ('add, 'query) process \<Rightarrow> ('add, 'query) process" where
  "logger lvl msg w = w\<lparr>log := log w @ [(lvl, msg)]\<rparr>"

text \<open>
  The \<^verbatim>\<open>try\<close> block of \<open>patch_mem0_graph\<close> (lines 98 to 113): \<open>Inl e\<close> when a
  statement raises \<open>e\<close> (nothing has been changed by then), \<open>Inr\<close> the new process
  state when the block runs to its end.
\<close>

definition patch_mem0_graph_try ::
    "('self \<Rightarrow> 'a payload \<Rightarrow> 'f option \<Rightarrow> 'r, 'query) process
      \<Rightarrow> exn + ('self \<Rightarrow> 'a payload \<Rightarrow> 'f option \<Rightarrow> 'r, 'query) process" where
  "patch_mem0_graph_try w =
     (case GraphMemory_import w of
        Some e \<Rightarrow> Inl e
      | None \<Rightarrow>
          (case GraphMemory_add w of
             Inl e \<Rightarrow> Inl e
           | Inr original_add \<Rightarrow>
               (case GraphMemory_setattr w of
                  Some e \<Rightarrow> Inl e
                | None \<Rightarrow>
                    Inr (logger Info
                          ''Successfully patched Mem0 GraphMemory.add() for Neo4j 5.x compatibility''
                          (w\<lparr>GraphMemory_add := Inr (patched_add original_add)\<rparr>)))))"

text \<open>
  \<open>patch_mem0_graph\<close> with its two handlers, in the source's order: the first clause
  that the exception is an instance of handles it, and an exception that neither clause
  catches leaves the function. The result is \<open>Inl e\<close> when \<open>e\<close> leaves the function
  and \<open>Inr\<close> the new state when it returns.
\<close>

definition patch_mem0_graph ::
    "('self \<Rightarrow> 'a payload \<Rightarrow> 'f option \<Rightarrow> 'r, 'query) process
      \<Rightarrow> exn + ('self \<Rightarrow> 'a payload \<Rightarrow> 'f option \<Rightarrow> 'r, 'query) process" where
  "patch_mem0_graph w =
     (case patch_mem0_graph_try w of
        Inr w' \<Rightarrow> Inr w'
      | Inl e \<Rightarrow>
          if is_ImportError e
          then Inr (logger Warning (''Could not patch Mem0 GraphMemory: '' @ message e) w)
          else if is_Exception e
          then Inr (logger Error (''Error patching Mem0 GraphMemory: '' @ message e) w)
          else Inl e)"

text \<open>The \<^verbatim>\<open>try\<close> block of \<open>patch_neo4j_queries\<close> (lines 126 to 155).\<close>

definition patch_neo4j_queries_try ::
    "('add, 'self \<Rightarrow> string \<Rightarrow> 'p option \<Rightarrow> 'r) process
      \<Rightarrow> exn + ('add, 'self \<Rightarrow> string \<Rightarrow> 'p option \<Rightarrow> 'r) process" where
  "patch_neo4j_queries_try w =
     (case Neo4jGraph_import w of
        Some e \<Rightarrow> Inl e
      | None \<Rightarrow>
          (case Neo4jGraph_query w of
             Inl e \<Rightarrow> Inl e
           | Inr original_query \<Rightarrow>
               (case Neo4jGraph_setattr w of
                  Some e \<Rightarrow> Inl e
                | None \<Rightarrow>
                    Inr (logger Info
                          ''Successfully patched Neo4jGraph.query() for Neo4j 5.x compatibility''
                          (w\<lparr>Neo4jGraph_query := Inr (patched_query original_query)\<rparr>)))))"

definition patch_neo4j_queries ::
    "('add, 'self \<Rightarrow> string \<Rightarrow> 'p option \<Rightarrow> 'r) process
      \<Rightarrow> exn + ('add, 'self \<Rightarrow> string \<Rightarrow> 'p option \<Rightarrow> 'r) process" where
  "patch_neo4j_queries w =
     (case patch_neo4j_queries_try w of
        Inr w' \<Rightarrow> Inr w'
      | Inl e \<Rightarrow>
          if is_ImportError e
          then Inr (logger Warning (''Could not patch Neo4jGraph: '' @ message e) w)
          else if is_Exception e
          then Inr (logger Error (''Error patching Neo4jGraph: '' @ message e) w)
          else Inl e)"

text \<open>
  \<open>apply_all_patches\<close> (lines 163 to 168): the two installers in sequence, between two
  log records. There is no \<^verbatim>\<open>try\<close> here: an exception that leaves either installer
  leaves this function too, and one that leaves the first keeps the second from running.
\<close>

definition apply_all_patches ::
    "('s \<Rightarrow> 'a payload \<Rightarrow> 'f option \<Rightarrow> 'r, 't \<Rightarrow> string \<Rightarrow> 'p option \<Rightarrow> 'q) process
      \<Rightarrow> exn + ('s \<Rightarrow> 'a payload \<Rightarrow> 'f option \<Rightarrow> 'r, 't \<Rightarrow> string \<Rightarrow> 'p option \<Rightarrow> 'q) process" where
  "apply_all_patches w =
     (let w0 = logger Info ''Applying Neo4j 5.x compatibility patches...'' w
      in case patch_mem0_graph w0 of
           Inl e \<Rightarrow> Inl e
         | Inr w1 \<Rightarrow>
             (case patch_neo4j_queries w1 of
                Inl e \<Rightarrow> Inl e
              | Inr w2 \<Rightarrow> Inr (logger Info ''Neo4j 5.x compatibility patches applied'' w2)))"

section \<open>Facts about the string operations and the sanitizer\<close>

lemma str_in_sublist: "str_in sub s = sublist sub s"
  by (induction s) (auto simp: sublist_Cons_right)

lemma str_replace_single: "str_replace [a] [b] s = map (\<lambda>c. if c = a then b else c) s"
  by (induction s) auto

lemma set_collapse_step: "set (str_replace ''__'' ''_'' s) \<subseteq> set s"
  by (induction "''__''" "''_''" s rule: str_replace.induct) (auto dest: in_set_dropD)

lemma set_collapse: "set (collapse_underscores s) \<subseteq> set s"
proof (induction s rule: collapse_underscores.induct)
  case (1 s)
  show ?case
  proof (cases "str_in ''__'' s")
    case True
    then have "set (collapse_underscores (str_replace ''__'' ''_'' s)) \<subseteq> set (str_replace ''__'' ''_'' s)"
      using 1 by simp
    then show ?thesis using True set_collapse_step [of s]
      by (subst collapse_underscores.simps) auto
  next
    case False
    then show ?thesis by (subst collapse_underscores.simps) simp
  qed
qed

lemma collapse_no_double: "\<not> str_in ''__'' (collapse_underscores s)"
proof (induction s rule: collapse_underscores.induct)
  case (1 s)
  then show ?case
    by (subst collapse_underscores.simps) simp
qed

lemma collapse_id: "\<not> str_in ''__'' s \<Longrightarrow> collapse_underscores s = s"
  by (subst collapse_underscores.simps) simp


lemma lstrip_sublist: "sublist (lstrip_chars chars s) s"
  unfolding lstrip_chars_def
  by (metis suffix_imp_sublist suffix_dropWhile)

lemma rstrip_sublist: "sublist (rstrip_chars chars s) s"
proof -
  have "suffix (dropWhile (\<lambda>c. c \<in> set chars) (rev s)) (rev s)"
    by (rule suffix_dropWhile)
  then have "prefix (rev (dropWhile (\<lambda>c. c \<in> set chars) (rev s))) s"
    by (simp add: suffix_to_prefix)
  then show ?thesis
    unfolding rstrip_chars_def by (rule prefix_imp_sublist)
qed

lemma strip_sublist: "sublist (strip_chars chars s) s"
  unfolding strip_chars_def
  using rstrip_sublist lstrip_sublist sublist_order.order_trans by blast

lemma strip_no_lead: "\<not> prefix [c] (strip_chars [c] s)"
proof
  assume p: "prefix [c] (strip_chars [c] s)"
  let ?l = "lstrip_chars [c] s"
  have ne: "strip_chars [c] s \<noteq> []" using p by auto
  have "prefix (strip_chars [c] s) ?l"
    unfolding strip_chars_def rstrip_chars_def
    by (metis suffix_dropWhile suffix_to_prefix rev_rev_ident)
  with p have "prefix [c] ?l" by (rule prefix_order.order_trans)
  then obtain t where "?l = c # t" by (auto simp: prefix_def)
  moreover have "?l = [] \<or> hd ?l \<notin> set [c]"
    unfolding lstrip_chars_def using hd_dropWhile by blast
  ultimately show False by simp
qed

lemma strip_no_trail: "\<not> suffix [c] (strip_chars [c] s)"
proof
  assume p: "suffix [c] (strip_chars [c] s)"
  let ?r = "dropWhile (\<lambda>x. x \<in> set [c]) (rev (lstrip_chars [c] s))"
  have "strip_chars [c] s = rev ?r"
    by (simp add: strip_chars_def rstrip_chars_def)
  with p have "prefix [c] ?r" by (simp add: suffix_to_prefix)
  then obtain t where "?r = c # t" by (auto simp: prefix_def)
  moreover have "?r = [] \<or> hd ?r \<notin> set [c]"
    using hd_dropWhile by blast
  ultimately show False by simp
qed

lemma strip_id:
  assumes "\<not> prefix [c] s" and "\<not> suffix [c] s"
  shows "strip_chars [c] s = s"
proof (cases s)
  case Nil
  then show ?thesis by (simp add: strip_chars_def rstrip_chars_def lstrip_chars_def)
next
  case (Cons a t)
  with assms(1) have l: "lstrip_chars [c] s = s"
    by (simp add: lstrip_chars_def)
  from Cons have "s \<noteq> []" by simp
  then have "s = butlast s @ [last s]" by simp
  with assms(2) have "last s \<noteq> c"
    by (metis suffixI)
  then have "dropWhile (\<lambda>x. x \<in> set [c]) (rev s) = rev s"
    using \<open>s \<noteq> []\<close> by (cases "rev s") (auto simp: last_rev hd_rev)
  with l show ?thesis
    by (simp add: strip_chars_def rstrip_chars_def)
qed

lemma strip_all:
  assumes "set s \<subseteq> set chars"
  shows "strip_chars chars s = []"
proof -
  have "lstrip_chars chars s = []"
    using assms by (auto simp: lstrip_chars_def dropWhile_eq_Nil_conv)
  then show ?thesis
    by (simp add: strip_chars_def rstrip_chars_def)
qed


lemma sanitize_unfold:
  "sanitize_relationship_type s =
     (if s = [] then [] else strip_chars ''_'' (collapse_underscores (replaced s)))"
  by (simp add: sanitize_relationship_type_def replaced_def Let_def)

lemma replaced_map:
  "replaced s = map (\<lambda>c. if c \<in> {CHR '':'', CHR ''/'', CHR 0x5C, CHR '' '', CHR ''-''}
                          then CHR ''_'' else c) s"
  by (simp add: replaced_def str_replace_single)

lemma replaced_clean:
  "set (replaced s) \<inter> {CHR '':'', CHR ''/'', CHR 0x5C, CHR '' '', CHR ''-''} = {}"
  by (auto simp: replaced_map)

lemma replaced_id:
  assumes "set s \<inter> {CHR '':'', CHR ''/'', CHR 0x5C, CHR '' '', CHR ''-''} = {}"
  shows "replaced s = s"
proof -
  have "c \<notin> {CHR '':'', CHR ''/'', CHR 0x5C, CHR '' '', CHR ''-''}" if "c \<in> set s" for c
    using assms that by blast
  then have "map (\<lambda>c. if c \<in> {CHR '':'', CHR ''/'', CHR 0x5C, CHR '' '', CHR ''-''}
                          then CHR ''_'' else c) s = s"
    by (intro map_idI) (simp only: if_False)
  then show ?thesis by (simp only: replaced_map)
qed

lemma set_strip: "set (strip_chars chars s) \<subseteq> set s"
  using strip_sublist [of chars s] by (rule set_mono_sublist)

lemma sanitize_subset:
  "s \<noteq> [] \<Longrightarrow> set (sanitize_relationship_type s) \<subseteq> set (replaced s)"
  by (simp only: sanitize_unfold if_False) (rule order_trans [OF set_strip set_collapse])

lemma sanitize_chars:
  "set (sanitize_relationship_type s) \<inter> {CHR '':'', CHR ''/'', CHR 0x5C, CHR '' '', CHR ''-''} = {}"
proof (cases "s = []")
  case True
  then show ?thesis by (simp add: sanitize_relationship_type_def)
next
  case False
  then show ?thesis
    using sanitize_subset [of s] replaced_clean [of s] by blast
qed

lemma sanitize_no_double: "\<not> str_in ''__'' (sanitize_relationship_type s)"
proof (cases "s = []")
  case True
  then show ?thesis by (simp add: sanitize_unfold)
next
  case False
  have "\<not> sublist ''__'' (collapse_underscores (replaced s))"
    using collapse_no_double by (simp add: str_in_sublist)
  then have "\<not> sublist ''__'' (strip_chars ''_'' (collapse_underscores (replaced s)))"
    using strip_sublist sublist_order.order_trans by blast
  with False show ?thesis by (simp add: sanitize_unfold str_in_sublist)
qed

lemma sanitize_no_lead: "\<not> prefix ''_'' (sanitize_relationship_type s)"
  using strip_no_lead [of "CHR ''_''"] by (simp add: sanitize_unfold)

lemma sanitize_no_trail: "\<not> suffix ''_'' (sanitize_relationship_type s)"
  using strip_no_trail [of "CHR ''_''"] by (simp add: sanitize_unfold)

lemma sanitize_fixed:
  assumes "set r \<inter> {CHR '':'', CHR ''/'', CHR 0x5C, CHR '' '', CHR ''-''} = {}"
    and "\<not> str_in ''__'' r" and "\<not> prefix ''_'' r" and "\<not> suffix ''_'' r"
  shows "sanitize_relationship_type r = r"
  using assms by (simp add: sanitize_unfold replaced_id collapse_id strip_id)

section \<open>Facts about the structure walker\<close>

lemma dict_set_fresh: "key \<notin> fst ` set d \<Longrightarrow> dict_set d key v = d @ [(key, v)]"
  by (induction d key v rule: dict_set.induct) auto

lemma fold_dict_set:
  "distinct (map fst items) \<Longrightarrow> fst ` set acc \<inter> fst ` set items = {}
    \<Longrightarrow> fold (\<lambda>kv result. dict_set result (fst kv) (f kv)) items acc
        = acc @ map (\<lambda>kv. (fst kv, f kv)) items"
proof (induction items arbitrary: acc)
  case Nil
  then show ?case by simp
next
  case (Cons kv items)
  have fresh: "fst kv \<notin> fst ` set acc"
    using Cons.prems(2) by auto
  have "fst ` set (acc @ [(fst kv, f kv)]) \<inter> fst ` set items = {}"
    using Cons.prems by auto
  moreover have "distinct (map fst items)"
    using Cons.prems(1) by simp
  ultimately have "fold (\<lambda>kv result. dict_set result (fst kv) (f kv)) items (acc @ [(fst kv, f kv)])
      = (acc @ [(fst kv, f kv)]) @ map (\<lambda>kv. (fst kv, f kv)) items"
    by (rule Cons.IH [rotated])
  then show ?case
    by (simp add: dict_set_fresh [OF fresh])
qed

text \<open>The value the walker's loop stores for one item.\<close>

lemma walk_step:
  "(\<lambda>kv result.
      if fst kv \<in> set designator_keys
      then (case snd kv of
              PStr s \<Rightarrow> dict_set result (fst kv) (PStr (sanitize_relationship_type s))
            | _ \<Rightarrow> dict_set result (fst kv) (sanitize_graph_data (snd kv)))
      else dict_set result (fst kv) (sanitize_graph_data (snd kv)))
   = (\<lambda>kv result. dict_set result (fst kv)
        (case snd kv of
           PStr s \<Rightarrow> if fst kv \<in> set designator_keys
                     then PStr (sanitize_relationship_type s)
                     else sanitize_graph_data (snd kv)
         | _ \<Rightarrow> sanitize_graph_data (snd kv)))"
  by (intro ext) (simp split: payload.splits)

lemma sanitize_graph_data_PDict:
  assumes "distinct (map fst items)"
  shows "sanitize_graph_data (PDict items) =
     PDict (map (\<lambda>kv. (fst kv,
                  case snd kv of
                    PStr s \<Rightarrow> if fst kv \<in> set designator_keys
                              then PStr (sanitize_relationship_type s)
                              else sanitize_graph_data (snd kv)
                  | _ \<Rightarrow> sanitize_graph_data (snd kv))) items)"
  using fold_dict_set [OF assms, of "[]"]
  by (simp add: walk_step)

lemma str_count_char: "str_count [a] s = length (filter (\<lambda>c. c = a) s)"
  by (induction s) auto


lemma differs_PStr: "differs_only_in_labels (PStr s) (sanitize_graph_data (PStr s))"
  by (simp add: str_count_char)

section \<open>Facts about the installer\<close>

lemma logger_fields [simp]:
  "GraphMemory_import (logger lvl msg w) = GraphMemory_import w"
  "GraphMemory_add (logger lvl msg w) = GraphMemory_add w"
  "GraphMemory_setattr (logger lvl msg w) = GraphMemory_setattr w"
  "Neo4jGraph_import (logger lvl msg w) = Neo4jGraph_import w"
  "Neo4jGraph_query (logger lvl msg w) = Neo4jGraph_query w"
  "Neo4jGraph_setattr (logger lvl msg w) = Neo4jGraph_setattr w"
  "log (logger lvl msg w) = log w @ [(lvl, msg)]"
  by (simp_all add: logger_def)


lemma case_Inl_cong:
  assumes "\<And>e. (t1 = Inl e) = (t2 = Inl e)"
  shows "(case t1 of Inl e \<Rightarrow> P e | Inr x \<Rightarrow> Q) = (case t2 of Inl e \<Rightarrow> P e | Inr y \<Rightarrow> Q)"
proof (cases t1)
  case (Inl a)
  with assms [of a] have "t2 = Inl a" by simp
  with Inl show ?thesis by simp
next
  case (Inr x)
  have "\<exists>y. t2 = Inr y"
  proof (cases t2)
    case (Inl b)
    with assms [of b] Inr show ?thesis by simp
  qed simp
  with Inr show ?thesis by auto
qed

text \<open>The exception a \<^verbatim>\<open>try\<close> block raises depends on its own class only.\<close>

lemma patch_mem0_graph_try_raises:
  assumes "GraphMemory_import w1 = GraphMemory_import w"
    and "GraphMemory_add w1 = GraphMemory_add w"
    and "GraphMemory_setattr w1 = GraphMemory_setattr w"
  shows "(patch_mem0_graph_try w1 = Inl e) = (patch_mem0_graph_try w = Inl e)"
  unfolding patch_mem0_graph_try_def assms
  by (simp split: option.splits sum.splits)

lemma patch_neo4j_queries_try_raises:
  assumes "Neo4jGraph_import w1 = Neo4jGraph_import w"
    and "Neo4jGraph_query w1 = Neo4jGraph_query w"
    and "Neo4jGraph_setattr w1 = Neo4jGraph_setattr w"
  shows "(patch_neo4j_queries_try w1 = Inl e) = (patch_neo4j_queries_try w = Inl e)"
  unfolding patch_neo4j_queries_try_def assms
  by (simp split: option.splits sum.splits)

lemma patch_mem0_graph_returns:
  assumes "case patch_mem0_graph_try w of Inl e \<Rightarrow> is_Exception e | Inr w1 \<Rightarrow> True"
  shows "\<exists>w1. patch_mem0_graph w = Inr w1"
  using assms unfolding patch_mem0_graph_def by (auto split: sum.splits)

lemma patch_neo4j_queries_returns:
  assumes "case patch_neo4j_queries_try w of Inl e \<Rightarrow> is_Exception e | Inr w2 \<Rightarrow> True"
  shows "\<exists>w2. patch_neo4j_queries w = Inr w2"
  using assms unfolding patch_neo4j_queries_def by (auto split: sum.splits)



lemma patch_mem0_graph_effect:
  assumes "patch_mem0_graph w = Inr w1"
  shows "GraphMemory_add w1 =
        (case GraphMemory_import w of
           Some e \<Rightarrow> GraphMemory_add w
         | None \<Rightarrow>
             (case GraphMemory_add w of
                Inl e \<Rightarrow> GraphMemory_add w
              | Inr original_add \<Rightarrow>
                  (case GraphMemory_setattr w of
                     Some e \<Rightarrow> GraphMemory_add w
                   | None \<Rightarrow> Inr (patched_add original_add))))"
    and "map fst (log w1) = map fst (log w) @
        [case patch_mem0_graph_try w of
           Inr w' \<Rightarrow> Info
         | Inl e \<Rightarrow> if is_ImportError e then Warning else Error]"
    and "Neo4jGraph_import w1 = Neo4jGraph_import w"
    and "Neo4jGraph_query w1 = Neo4jGraph_query w"
    and "Neo4jGraph_setattr w1 = Neo4jGraph_setattr w"
  using assms unfolding patch_mem0_graph_def patch_mem0_graph_try_def
  by (auto split: option.splits sum.splits if_splits)

lemma patch_neo4j_queries_effect:
  assumes "patch_neo4j_queries w = Inr w2"
  shows "Neo4jGraph_query w2 =
        (case Neo4jGraph_import w of
           Some e \<Rightarrow> Neo4jGraph_query w
         | None \<Rightarrow>
             (case Neo4jGraph_query w of
                Inl e \<Rightarrow> Neo4jGraph_query w
              | Inr original_query \<Rightarrow>
                  (case Neo4jGraph_setattr w of
                     Some e \<Rightarrow> Neo4jGraph_query w
                   | None \<Rightarrow> Inr (patched_query original_query))))"
    and "map fst (log w2) = map fst (log w) @
        [case patch_neo4j_queries_try w of
           Inr w' \<Rightarrow> Info
         | Inl e \<Rightarrow> if is_ImportError e then Warning else Error]"
    and "GraphMemory_add w2 = GraphMemory_add w"
  using assms unfolding patch_neo4j_queries_def patch_neo4j_queries_try_def
  by (auto split: option.splits sum.splits if_splits)


lemma apply_all_patches_result:
  assumes h1: "case patch_mem0_graph_try w of Inl e \<Rightarrow> is_Exception e | Inr w1 \<Rightarrow> True"
    and h2: "case patch_neo4j_queries_try w of Inl e \<Rightarrow> is_Exception e | Inr w2 \<Rightarrow> True"
  shows "\<exists>w'. apply_all_patches w = Inr w' \<and>
      GraphMemory_add w' =
        (case GraphMemory_import w of
           Some e \<Rightarrow> GraphMemory_add w
         | None \<Rightarrow>
             (case GraphMemory_add w of
                Inl e \<Rightarrow> GraphMemory_add w
              | Inr original_add \<Rightarrow>
                  (case GraphMemory_setattr w of
                     Some e \<Rightarrow> GraphMemory_add w
                   | None \<Rightarrow> Inr (patched_add original_add)))) \<and>
      Neo4jGraph_query w' =
        (case Neo4jGraph_import w of
           Some e \<Rightarrow> Neo4jGraph_query w
         | None \<Rightarrow>
             (case Neo4jGraph_query w of
                Inl e \<Rightarrow> Neo4jGraph_query w
              | Inr original_query \<Rightarrow>
                  (case Neo4jGraph_setattr w of
                     Some e \<Rightarrow> Neo4jGraph_query w
                   | None \<Rightarrow> Inr (patched_query original_query)))) \<and>
      map fst (log w') = map fst (log w) @
        [Info,
         case patch_mem0_graph_try w of
           Inr w1 \<Rightarrow> Info
         | Inl e \<Rightarrow> if is_ImportError e then Warning else Error,
         case patch_neo4j_queries_try w of
           Inr w2 \<Rightarrow> Info
         | Inl e \<Rightarrow> if is_ImportError e then Warning else Error,
         Info]"
proof -
  let ?w0 = "logger Info ''Applying Neo4j 5.x compatibility patches...'' w"
  have t0: "(patch_mem0_graph_try ?w0 = Inl e) = (patch_mem0_graph_try w = Inl e)" for e
    by (rule patch_mem0_graph_try_raises) simp_all
  have "(case patch_mem0_graph_try ?w0 of Inl e \<Rightarrow> is_Exception e | Inr w1 \<Rightarrow> True)
      = (case patch_mem0_graph_try w of Inl e \<Rightarrow> is_Exception e | Inr w1 \<Rightarrow> True)"
    by (rule case_Inl_cong [OF t0])
  with h1 have "case patch_mem0_graph_try ?w0 of Inl e \<Rightarrow> is_Exception e | Inr w1 \<Rightarrow> True"
    by simp
  then obtain w1 where w1: "patch_mem0_graph ?w0 = Inr w1"
    using patch_mem0_graph_returns by blast
  note m = patch_mem0_graph_effect [OF w1]
  have t1: "(patch_neo4j_queries_try w1 = Inl e) = (patch_neo4j_queries_try w = Inl e)" for e
    by (rule patch_neo4j_queries_try_raises) (simp_all add: m(3,4,5))
  have "(case patch_neo4j_queries_try w1 of Inl e \<Rightarrow> is_Exception e | Inr w2 \<Rightarrow> True)
      = (case patch_neo4j_queries_try w of Inl e \<Rightarrow> is_Exception e | Inr w2 \<Rightarrow> True)"
    by (rule case_Inl_cong [OF t1])
  with h2 have "case patch_neo4j_queries_try w1 of Inl e \<Rightarrow> is_Exception e | Inr w2 \<Rightarrow> True"
    by simp
  then obtain w2 where w2: "patch_neo4j_queries w1 = Inr w2"
    using patch_neo4j_queries_returns by blast
  note q = patch_neo4j_queries_effect [OF w2]
  let ?w' = "logger Info ''Neo4j 5.x compatibility patches applied'' w2"
  have ret: "apply_all_patches w = Inr ?w'"
    by (simp add: apply_all_patches_def Let_def w1 w2)
  have gm: "GraphMemory_add ?w' =
        (case GraphMemory_import w of
           Some e \<Rightarrow> GraphMemory_add w
         | None \<Rightarrow>
             (case GraphMemory_add w of
                Inl e \<Rightarrow> GraphMemory_add w
              | Inr original_add \<Rightarrow>
                  (case GraphMemory_setattr w of
                     Some e \<Rightarrow> GraphMemory_add w
                   | None \<Rightarrow> Inr (patched_add original_add))))"
    using m(1) q(3) unfolding logger_fields by simp
  have nq: "Neo4jGraph_query ?w' =
        (case Neo4jGraph_import w of
           Some e \<Rightarrow> Neo4jGraph_query w
         | None \<Rightarrow>
             (case Neo4jGraph_query w of
                Inl e \<Rightarrow> Neo4jGraph_query w
              | Inr original_query \<Rightarrow>
                  (case Neo4jGraph_setattr w of
                     Some e \<Rightarrow> Neo4jGraph_query w
                   | None \<Rightarrow> Inr (patched_query original_query))))"
    using q(1) unfolding m(3,4,5) logger_fields by simp
  have l1: "(case patch_mem0_graph_try ?w0 of
               Inr w1 \<Rightarrow> Info
             | Inl e \<Rightarrow> if is_ImportError e then Warning else Error)
          = (case patch_mem0_graph_try w of
               Inr w1 \<Rightarrow> Info
             | Inl e \<Rightarrow> if is_ImportError e then Warning else Error)"
    by (rule case_Inl_cong [OF t0])
  have l2: "(case patch_neo4j_queries_try w1 of
               Inr w2 \<Rightarrow> Info
             | Inl e \<Rightarrow> if is_ImportError e then Warning else Error)
          = (case patch_neo4j_queries_try w of
               Inr w2 \<Rightarrow> Info
             | Inl e \<Rightarrow> if is_ImportError e then Warning else Error)"
    by (rule case_Inl_cong [OF t1])
  have lg: "map fst (log ?w') = map fst (log w) @
        [Info,
         case patch_mem0_graph_try w of
           Inr w1 \<Rightarrow> Info
         | Inl e \<Rightarrow> if is_ImportError e then Warning else Error,
         case patch_neo4j_queries_try w of
           Inr w2 \<Rightarrow> Info
         | Inl e \<Rightarrow> if is_ImportError e then Warning else Error,
         Info]"
    using q(2) m(2) unfolding l1 l2 by simp
  show ?thesis
    apply (rule exI [of _ ?w'])
    apply (intro conjI ret gm nq lg)
    done
qed



section \<open>Facts about the query rewriter\<close>

lemma match_type_arrow_iff:
  "match_type_arrow s = Some (rel_type, rest) \<longleftrightarrow>
     rel_type \<noteq> [] \<and> CHR '']'' \<notin> set rel_type \<and> s = '':'' @ rel_type @ '']->'' @ rest"
proof
  assume m: "match_type_arrow s = Some (rel_type, rest)"
  then obtain t where s: "s = CHR '':'' # t"
    by (cases s) (auto simp: match_type_arrow_def split: if_splits)
  let ?P = "\<lambda>x. x \<noteq> CHR '']''"
  from m s have tok: "rel_type = takeWhile ?P t" and ne: "rel_type \<noteq> []"
    and pre: "prefix '']->'' (dropWhile ?P t)" and rest: "rest = drop 3 (dropWhile ?P t)"
    by (auto simp: match_type_arrow_def Let_def split: if_splits)
  from pre rest have "dropWhile ?P t = '']->'' @ rest"
    by (auto simp: prefix_def)
  then have "t = rel_type @ '']->'' @ rest"
    using tok takeWhile_dropWhile_id [of ?P t] by simp
  moreover have "CHR '']'' \<notin> set rel_type"
    using tok by (auto dest: set_takeWhileD)
  ultimately show "rel_type \<noteq> [] \<and> CHR '']'' \<notin> set rel_type
      \<and> s = '':'' @ rel_type @ '']->'' @ rest"
    using ne s by simp
next
  assume a: "rel_type \<noteq> [] \<and> CHR '']'' \<notin> set rel_type \<and> s = '':'' @ rel_type @ '']->'' @ rest"
  let ?P = "\<lambda>x. x \<noteq> CHR '']''"
  let ?t = "rel_type @ '']->'' @ rest"
  from a have all: "\<forall>x\<in>set rel_type. ?P x" by auto
  have tw: "takeWhile ?P ?t = rel_type"
    using all by (simp add: takeWhile_append2)
  have dw: "dropWhile ?P ?t = '']->'' @ rest"
    using all by (simp add: dropWhile_append2)
  from a have "s = CHR '':'' # ?t" by simp
  then show "match_type_arrow s = Some (rel_type, rest)"
    using a tw dw unfolding match_type_arrow_def by (simp add: Let_def)
qed


lemma take_match_span: "take (length (a @ r) - length r) (a @ r) = a"
  by simp

lemma match_edge_iff:
  "match_edge s = Some (full_match, rel_type, rest) \<longleftrightarrow>
     (\<exists>v. (v = [] \<or> v = ''r'') \<and> rel_type \<noteq> [] \<and> CHR '']'' \<notin> set rel_type
        \<and> full_match = ''-['' @ v @ '':'' @ rel_type @ '']->''
        \<and> s = full_match @ rest)"
proof
  assume m: "match_edge s = Some (full_match, rel_type, rest)"
  then have p: "prefix ''-['' s"
    by (auto simp: match_edge_def split: if_splits)
  then obtain s1 where s: "s = ''-['' @ s1"
    by (auto simp: prefix_def)
  from m s have full: "full_match = take (length s - length rest) s"
    by (auto simp: match_edge_def Let_def split: if_splits option.splits)
  from m s have "(prefix ''r'' s1 \<and> match_type_arrow (drop 1 s1) = Some (rel_type, rest))
      \<or> match_type_arrow s1 = Some (rel_type, rest)"
    by (auto simp: match_edge_def Let_def split: if_splits option.splits)
  then obtain v where v: "v = [] \<or> v = ''r''" and s1: "s1 = v @ '':'' @ rel_type @ '']->'' @ rest"
    and tok: "rel_type \<noteq> []" "CHR '']'' \<notin> set rel_type"
  proof
    assume a: "prefix ''r'' s1 \<and> match_type_arrow (drop 1 s1) = Some (rel_type, rest)"
    then obtain s2 where "s1 = ''r'' @ s2" by (auto simp: prefix_def)
    with a have "s1 = ''r'' @ '':'' @ rel_type @ '']->'' @ rest"
        "rel_type \<noteq> []" "CHR '']'' \<notin> set rel_type"
      by (simp_all add: match_type_arrow_iff)
    then show ?thesis using that [of "''r''"] by blast
  next
    assume "match_type_arrow s1 = Some (rel_type, rest)"
    then have "s1 = [] @ '':'' @ rel_type @ '']->'' @ rest"
        "rel_type \<noteq> []" "CHR '']'' \<notin> set rel_type"
      by (simp_all add: match_type_arrow_iff)
    then show ?thesis using that [of "[]"] by blast
  qed
  have split: "s = (''-['' @ v @ '':'' @ rel_type @ '']->'') @ rest"
    using s s1 by simp
  have "take (length s - length rest) s = ''-['' @ v @ '':'' @ rel_type @ '']->''"
    unfolding split by (rule take_match_span)
  with split show "\<exists>v. (v = [] \<or> v = ''r'') \<and> rel_type \<noteq> [] \<and> CHR '']'' \<notin> set rel_type
        \<and> full_match = ''-['' @ v @ '':'' @ rel_type @ '']->''
        \<and> s = full_match @ rest"
    using v tok full by auto
next
  assume "\<exists>v. (v = [] \<or> v = ''r'') \<and> rel_type \<noteq> [] \<and> CHR '']'' \<notin> set rel_type
        \<and> full_match = ''-['' @ v @ '':'' @ rel_type @ '']->''
        \<and> s = full_match @ rest"
  then obtain v where v: "v = [] \<or> v = ''r''" and tok: "rel_type \<noteq> []" "CHR '']'' \<notin> set rel_type"
    and full: "full_match = ''-['' @ v @ '':'' @ rel_type @ '']->''" and s: "s = full_match @ rest"
    by blast
  have mt: "match_type_arrow ('':'' @ rel_type @ '']->'' @ rest) = Some (rel_type, rest)"
    using tok by (simp add: match_type_arrow_iff)
  have len: "take (length s - length rest) s = full_match"
    using s by simp
  from v show "match_edge s = Some (full_match, rel_type, rest)"
  proof
    assume "v = []"
    then have s': "s = ''-['' @ '':'' @ rel_type @ '']->'' @ rest"
      using s full by simp
    have "match_edge (''-['' @ '':'' @ rel_type @ '']->'' @ rest)
        = Some (take (length s - length rest) s, rel_type, rest)"
      unfolding match_edge_def using mt s' by (simp add: Let_def)
    then show ?thesis using s' len by simp
  next
    assume "v = ''r''"
    then have s': "s = ''-['' @ ''r'' @ '':'' @ rel_type @ '']->'' @ rest"
      using s full by simp
    have "match_edge (''-['' @ ''r'' @ '':'' @ rel_type @ '']->'' @ rest)
        = Some (take (length s - length rest) s, rel_type, rest)"
      unfolding match_edge_def using mt s' by (simp add: Let_def)
    then show ?thesis using s' len by simp
  qed
qed

lemma match_edge_other_binding:
  assumes "v \<noteq> []" and "v \<noteq> ''r''" and "CHR '':'' \<notin> set v"
  shows "match_edge (''-['' @ v @ rest) = None"
proof (cases "match_edge (''-['' @ v @ rest)")
  case None
  then show ?thesis .
next
  case (Some m)
  then obtain full_match rel_type rest' where
    "match_edge (''-['' @ v @ rest) = Some (full_match, rel_type, rest')"
    by (cases m) auto
  then obtain u where u: "u = [] \<or> u = ''r''"
    and eq: "''-['' @ v @ rest = (''-['' @ u @ '':'' @ rel_type @ '']->'') @ rest'"
    unfolding match_edge_iff by blast
  from assms(1) obtain a v' where v: "v = a # v'" by (cases v) auto
  from u show ?thesis
  proof
    assume "u = []"
    with eq v have "a = CHR '':''" by simp
    with assms(3) v show ?thesis by simp
  next
    assume ur: "u = ''r''"
    with eq v have a: "a = CHR ''r''" and "v' @ rest = '':'' @ rel_type @ '']->'' @ rest'"
      by simp_all
    moreover from assms(2) v a obtain b v'' where "v' = b # v''" by (cases v') auto
    ultimately have "b = CHR '':''" by simp
    with assms(3) v \<open>v' = b # v''\<close> show ?thesis by simp
  qed
qed


lemma match_edge_Nil [simp]: "match_edge [] = None"
  by (simp add: match_edge_def)

lemma match_edge_append:
  "match_edge a = Some (full_match, rel_type, rest)
    \<Longrightarrow> match_edge (a @ b) = Some (full_match, rel_type, rest @ b)"
  unfolding match_edge_iff by auto

lemma match_edge_span:
  "match_edge s = Some (full_match, rel_type, rest)
    \<Longrightarrow> match_edge (full_match @ x) = Some (full_match, rel_type, x)"
  unfolding match_edge_iff by auto

lemma re_sub_edge_match:
  assumes "match_edge s = Some (full_match, rel_type, rest)"
  shows "re_sub_edge s = replace_relationship_type full_match rel_type @ re_sub_edge rest"
proof (cases s)
  case Nil
  with assms show ?thesis by simp
next
  case (Cons c cs)
  with assms show ?thesis by simp
qed

lemma re_sub_edge_split:
  "scan_reaches n s \<Longrightarrow> re_sub_edge s = re_sub_edge (take n s) @ re_sub_edge (drop n s)"
proof (induction n s rule: scan_reaches.induct)
  case (1 s)
  show ?case by simp
next
  case (2 n)
  then show ?case by simp
next
  case (3 n c cs)
  show ?case
  proof (cases "match_edge (c # cs)")
    case None
    with "3.prems" have "scan_reaches n cs" by simp
    with None have ih: "re_sub_edge cs = re_sub_edge (take n cs) @ re_sub_edge (drop n cs)"
      using "3.IH"(1) by blast
    have "match_edge (c # take n cs) = None"
    proof (cases "match_edge (c # take n cs)")
      case (Some m)
      then obtain f t r where "match_edge (c # take n cs) = Some (f, t, r)"
        by (cases m) auto
      then have "match_edge ((c # take n cs) @ drop n cs) = Some (f, t, r @ drop n cs)"
        by (rule match_edge_append)
      with None show ?thesis by simp
    qed simp
    with None ih show ?thesis by simp
  next
    case (Some m)
    then obtain f t r where m: "match_edge (c # cs) = Some (f, t, r)"
      by (cases m) auto
    with "3.prems" have len: "length f \<le> Suc n" and reach: "scan_reaches (Suc n - length f) r"
      by simp_all
    from m have split: "c # cs = f @ r"
      unfolding match_edge_iff by blast
    have ih: "re_sub_edge r = re_sub_edge (take (Suc n - length f) r)
        @ re_sub_edge (drop (Suc n - length f) r)"
      using "3.IH"(2) m reach by blast
    have tk: "take (Suc n) (c # cs) = f @ take (Suc n - length f) r"
      unfolding split using len by simp
    have dr: "drop (Suc n) (c # cs) = drop (Suc n - length f) r"
      unfolding split using len by simp
    have "re_sub_edge (f @ take (Suc n - length f) r)
        = replace_relationship_type f t @ re_sub_edge (take (Suc n - length f) r)"
      using match_edge_span [OF m] by (rule re_sub_edge_match)
    moreover have "re_sub_edge (c # cs) = replace_relationship_type f t @ re_sub_edge r"
      using m by (rule re_sub_edge_match)
    ultimately show ?thesis
      unfolding tk dr using ih by simp
  qed
qed


lemma str_replace_skip:
  "old \<noteq> [] \<Longrightarrow> (\<forall>i < length a. \<not> prefix old (drop i (a @ r)))
    \<Longrightarrow> str_replace old new (a @ r) = a @ str_replace old new r"
proof (induction a)
  case Nil
  then show ?case by simp
next
  case (Cons x a)
  from Cons.prems(1) obtain o' old' where old: "old = o' # old'"
    by (cases old) auto
  have "\<not> prefix old (drop 0 ((x # a) @ r))"
    using Cons.prems(2) by blast
  then have no: "\<not> prefix (o' # old') (x # (a @ r))"
    using old by simp
  have "\<not> prefix old (drop i (a @ r))" if "i < length a" for i
    using Cons.prems(2) [rule_format, of "Suc i"] that by simp
  then have "str_replace old new (a @ r) = a @ str_replace old new r"
    using Cons.IH Cons.prems(1) by blast
  moreover have "str_replace old new ((x # a) @ r) = x # str_replace old new (a @ r)"
    using no unfolding old by auto
  ultimately show ?case by simp
qed

lemma str_replace_hit:
  "old \<noteq> [] \<Longrightarrow> str_replace old new (old @ r) = new @ str_replace old new r"
  by (cases old) simp_all

lemma str_replace_none:
  assumes "old \<noteq> []" and "\<forall>i < length b. \<not> prefix old (drop i b)"
  shows "str_replace old new b = b"
proof -
  from assms(1) obtain o' old' where old: "old = o' # old'"
    by (cases old) auto
  have "str_replace old new (b @ []) = b @ str_replace old new []"
    using assms by (intro str_replace_skip) simp_all
  then show ?thesis by (simp add: old)
qed

lemma occurrences_iff: "i \<in> set (occurrences sub s) \<longleftrightarrow> i \<le> length s \<and> prefix sub (drop i s)"
  unfolding occurrences_def set_filter by (auto simp: less_Suc_eq_le)

lemma str_replace_once:
  assumes "old \<noteq> []" and "occurrences old (a @ old @ b) = [length a]"
  shows "str_replace old new (a @ old @ b) = a @ new @ b"
proof -
  let ?s = "a @ old @ b"
  have none: "\<not> prefix old (drop i ?s)" if "i \<le> length ?s" "i \<noteq> length a" for i
  proof
    assume "prefix old (drop i ?s)"
    with that(1) have "i \<in> set (occurrences old ?s)"
      by (simp only: occurrences_iff)
    with assms(2) that(2) show False by simp
  qed
  have "\<not> prefix old (drop i (a @ old @ b))" if "i < length a" for i
    using none [of i] that by simp
  then have "str_replace old new (a @ old @ b) = a @ str_replace old new (old @ b)"
    using assms(1) by (intro str_replace_skip) blast+
  also have "\<dots> = a @ new @ str_replace old new b"
    using assms(1) by (simp add: str_replace_hit)
  also have "str_replace old new b = b"
  proof (rule str_replace_none [OF assms(1)], intro allI impI)
    fix j assume j: "j < length b"
    have "drop (length a + length old + j) ?s = drop j b"
      by simp
    moreover have "\<not> prefix old (drop (length a + length old + j) ?s)"
      using assms(1) j by (intro none) simp_all
    ultimately show "\<not> prefix old (drop j b)" by simp
  qed
  finally show ?thesis .
qed

section \<open>The claims about the token sanitizer\<close>

text \<open>
  Claim C3. For every non-empty string \<open>s\<close>, the result of
  \<open>sanitize_relationship_type s\<close> contains no colon, no forward slash, no backslash, no
  space and no hyphen, has no two underscores in a row, and neither starts nor ends with
  an underscore.
\<close>

theorem sanitize_invariant:
  "s \<noteq> [] \<Longrightarrow>
     CHR '':'' \<notin> set (sanitize_relationship_type s) \<and>
     CHR ''/'' \<notin> set (sanitize_relationship_type s) \<and>
     CHR 0x5C \<notin> set (sanitize_relationship_type s) \<and>
     CHR '' '' \<notin> set (sanitize_relationship_type s) \<and>
     CHR ''-'' \<notin> set (sanitize_relationship_type s) \<and>
     \<not> str_in ''__'' (sanitize_relationship_type s) \<and>
     \<not> prefix ''_'' (sanitize_relationship_type s) \<and>
     \<not> suffix ''_'' (sanitize_relationship_type s)"
  using sanitize_chars [of s] sanitize_no_double [of s] sanitize_no_lead [of s]
    sanitize_no_trail [of s]
  by auto

theorem sanitize_invariant_witness:
  "''_a:b/ c--d_'' \<noteq> [] \<and>
     sanitize_relationship_type ''_a:b/ c--d_'' = ''a_b_c_d'' \<and>
     CHR '':'' \<notin> set (sanitize_relationship_type ''_a:b/ c--d_'') \<and>
     CHR ''/'' \<notin> set (sanitize_relationship_type ''_a:b/ c--d_'') \<and>
     CHR 0x5C \<notin> set (sanitize_relationship_type ''_a:b/ c--d_'') \<and>
     CHR '' '' \<notin> set (sanitize_relationship_type ''_a:b/ c--d_'') \<and>
     CHR ''-'' \<notin> set (sanitize_relationship_type ''_a:b/ c--d_'') \<and>
     \<not> str_in ''__'' (sanitize_relationship_type ''_a:b/ c--d_'') \<and>
     \<not> prefix ''_'' (sanitize_relationship_type ''_a:b/ c--d_'') \<and>
     \<not> suffix ''_'' (sanitize_relationship_type ''_a:b/ c--d_'')"
proof -
  have ne: "''_a:b/ c--d_'' \<noteq> []" by simp
  have val: "sanitize_relationship_type ''_a:b/ c--d_'' = ''a_b_c_d''" by code_simp
  show ?thesis
    using ne val sanitize_invariant [OF ne] by blast
qed

text \<open>
  Claim C4. The sanitizer is idempotent on every string, the empty one included, and
  the empty string is sanitized to itself.
\<close>

theorem sanitize_idempotent:
  "sanitize_relationship_type (sanitize_relationship_type s) = sanitize_relationship_type s
   \<and> sanitize_relationship_type [] = []"
proof
  show "sanitize_relationship_type (sanitize_relationship_type s) = sanitize_relationship_type s"
    using sanitize_chars sanitize_no_double sanitize_no_lead sanitize_no_trail
    by (rule sanitize_fixed)
  show "sanitize_relationship_type [] = []"
    by (simp add: sanitize_relationship_type_def)
qed

text \<open>
  Claim C10. Sanitizing does not preserve non-emptiness: every non-empty string made
  only of the replaced characters and underscores is sanitized to the empty string, as
  are \<open>'':''\<close>, \<open>''-''\<close> and \<open>''___''\<close>.
\<close>

theorem sanitize_can_be_empty:
  "(s \<noteq> [] \<and> set s \<subseteq> {CHR '':'', CHR ''/'', CHR 0x5C, CHR '' '', CHR ''-'', CHR ''_''}
      \<longrightarrow> sanitize_relationship_type s = [])
   \<and> '':'' \<noteq> [] \<and> sanitize_relationship_type '':'' = []
   \<and> ''-'' \<noteq> [] \<and> sanitize_relationship_type ''-'' = []
   \<and> ''___'' \<noteq> [] \<and> sanitize_relationship_type ''___'' = []"
proof -
  have gen: "sanitize_relationship_type t = []"
    if "set t \<subseteq> {CHR '':'', CHR ''/'', CHR 0x5C, CHR '' '', CHR ''-'', CHR ''_''}" for t
  proof -
    have "set (replaced t) \<subseteq> {CHR ''_''}"
      using that by (auto simp: replaced_map)
    then have "set (collapse_underscores (replaced t)) \<subseteq> set ''_''"
      using set_collapse [of "replaced t"] by auto
    then show ?thesis
      by (simp add: sanitize_unfold strip_all)
  qed
  show ?thesis
    using gen [of s] gen [of "'':''"] gen [of "''-''"] gen [of "''___''"] by simp
qed

theorem sanitize_can_be_empty_witness:
  "''/ -_'' \<noteq> [] \<and> sanitize_relationship_type ''/ -_'' = []"
  using sanitize_can_be_empty [of "''/ -_''"] by simp

section \<open>The claims about the structure walker\<close>

text \<open>
  Claim C5. In a dictionary (each key once), the walker replaces the value of every
  entry whose key is a designator key and whose value is a string by the sanitized
  string, without walking into it, and walks every other value; the result has the same
  keys in the same order. In particular \<open>{"relationship": "a:b:c"}\<close> becomes
  \<open>{"relationship": "a_b_c"}\<close>.
\<close>

theorem designator_entries:
  "distinct (map fst items) \<Longrightarrow>
     sanitize_graph_data (PDict items) =
       PDict (map (\<lambda>(key, value).
                (key, case value of
                        PStr s \<Rightarrow> if key \<in> set designator_keys
                                  then PStr (sanitize_relationship_type s)
                                  else sanitize_graph_data value
                      | _ \<Rightarrow> sanitize_graph_data value)) items)
     \<and> (\<exists>items'. sanitize_graph_data (PDict items) = PDict items'
            \<and> map fst items' = map fst items)
     \<and> set designator_keys
          = {''relationship'', ''relation'', ''rel_type'', ''type'', ''relationship_type''}
     \<and> sanitize_graph_data (PDict [(''relationship'', PStr ''a:b:c'')])
          = PDict [(''relationship'', PStr ''a_b_c'')]"
proof (intro conjI)
  assume dist: "distinct (map fst items)"
  show eq: "sanitize_graph_data (PDict items) =
       PDict (map (\<lambda>(key, value).
                (key, case value of
                        PStr s \<Rightarrow> if key \<in> set designator_keys
                                  then PStr (sanitize_relationship_type s)
                                  else sanitize_graph_data value
                      | _ \<Rightarrow> sanitize_graph_data value)) items)"
    unfolding sanitize_graph_data_PDict [OF dist] by (simp add: case_prod_beta)
  show "\<exists>items'. sanitize_graph_data (PDict items) = PDict items'
            \<and> map fst items' = map fst items"
    unfolding eq by (simp add: comp_def case_prod_beta)
  show "set designator_keys
          = {''relationship'', ''relation'', ''rel_type'', ''type'', ''relationship_type''}"
    by (simp add: designator_keys_def)
  have "sanitize_relationship_type ''a:b:c'' = ''a_b_c''"
    by code_simp
  then show "sanitize_graph_data (PDict [(''relationship'', PStr ''a:b:c'')])
          = PDict [(''relationship'', PStr ''a_b_c'')]"
    by (simp add: designator_keys_def)
qed

theorem designator_entries_witness:
  "distinct (map fst [(''type'', PStr ''a-b''), (''name'', PStr ''a-b''),
                      (''relation'', PList [PStr ''x:y:z'', POther (7::int)])])
   \<and> sanitize_graph_data (PDict [(''type'', PStr ''a-b''), (''name'', PStr ''a-b''),
                      (''relation'', PList [PStr ''x:y:z'', POther (7::int)])])
      = PDict [(''type'', PStr ''a_b''), (''name'', PStr ''a-b''),
               (''relation'', PList [PStr ''x_y_z'', POther 7])]
   \<and> (\<exists>items'. sanitize_graph_data (PDict [(''type'', PStr ''a-b''), (''name'', PStr ''a-b''),
                      (''relation'', PList [PStr ''x:y:z'', POther (7::int)])]) = PDict items'
          \<and> map fst items' = [''type'', ''name'', ''relation''])"
proof -
  let ?items = "[(''type'', PStr ''a-b''), (''name'', PStr ''a-b''),
                 (''relation'', PList [PStr ''x:y:z'', POther (7::int)])]"
  have dist: "distinct (map fst ?items)" by simp
  have val: "sanitize_graph_data (PDict ?items)
      = PDict [(''type'', PStr ''a_b''), (''name'', PStr ''a-b''),
               (''relation'', PList [PStr ''x_y_z'', POther 7])]"
    by code_simp
  have "\<exists>items'. sanitize_graph_data (PDict ?items) = PDict items'
          \<and> map fst items' = map fst ?items"
    using designator_entries [OF dist] by blast
  then show ?thesis using dist val by simp
qed

text \<open>
  Claim C6. A string the walker reaches other than under a designator key (at the top,
  in a list, or under another key) is sanitized when it holds more than one colon and
  returned as it is otherwise: \<open>{"note": "x:y:z"}\<close> becomes \<open>{"note": "x_y_z"}\<close> and
  \<open>{"note": "a:b"}\<close> stays.
\<close>

theorem free_string_heuristic:
  "sanitize_graph_data (PStr s) =
     PStr (if 1 < length (filter (\<lambda>c. c = CHR '':'') s)
           then sanitize_relationship_type s else s)
   \<and> sanitize_graph_data (PList [PStr s]) =
       PList [PStr (if 1 < length (filter (\<lambda>c. c = CHR '':'') s)
                    then sanitize_relationship_type s else s)]
   \<and> (key \<notin> set designator_keys \<longrightarrow>
        sanitize_graph_data (PDict [(key, PStr s)]) =
          PDict [(key, PStr (if 1 < length (filter (\<lambda>c. c = CHR '':'') s)
                             then sanitize_relationship_type s else s))])
   \<and> sanitize_graph_data (PDict [(''note'', PStr ''x:y:z'')]) = PDict [(''note'', PStr ''x_y_z'')]
   \<and> sanitize_graph_data (PDict [(''note'', PStr ''a:b'')]) = PDict [(''note'', PStr ''a:b'')]"
proof (intro conjI impI)
  show top: "sanitize_graph_data (PStr s) =
     PStr (if 1 < length (filter (\<lambda>c. c = CHR '':'') s)
           then sanitize_relationship_type s else s)"
    by (simp add: str_count_char)
  show "sanitize_graph_data (PList [PStr s]) =
       PList [PStr (if 1 < length (filter (\<lambda>c. c = CHR '':'') s)
                    then sanitize_relationship_type s else s)]"
    using top by simp
  show "sanitize_graph_data (PDict [(key, PStr s)]) =
          PDict [(key, PStr (if 1 < length (filter (\<lambda>c. c = CHR '':'') s)
                             then sanitize_relationship_type s else s))]"
    if "key \<notin> set designator_keys"
    using that top by simp
  have "sanitize_relationship_type ''x:y:z'' = ''x_y_z''"
    by code_simp
  then show "sanitize_graph_data (PDict [(''note'', PStr ''x:y:z'')])
      = PDict [(''note'', PStr ''x_y_z'')]"
    by (simp add: designator_keys_def)
  show "sanitize_graph_data (PDict [(''note'', PStr ''a:b'')]) = PDict [(''note'', PStr ''a:b'')]"
    by (simp add: designator_keys_def)
qed

theorem free_string_heuristic_witness:
  "''label'' \<notin> set designator_keys
   \<and> sanitize_graph_data (PDict [(''label'', PStr ''10:30:59'')])
       = PDict [(''label'', PStr ''10_30_59'')]"
proof -
  have k: "''label'' \<notin> set designator_keys"
    by (simp add: designator_keys_def)
  have "sanitize_relationship_type ''10:30:59'' = ''10_30_59''"
    by code_simp
  then show ?thesis
    using k free_string_heuristic [of "''10:30:59''" "''label''"] by simp
qed

text \<open>
  Claim C7. For every payload (each dictionary holding each key once), the walker's
  result has the same dictionary keys in the same order, the same list lengths and the
  same non-string values; it can differ from the input only in the strings under a
  designator key and in the other strings with more than one colon.
\<close>

theorem structural_fidelity:
  "well_formed p \<Longrightarrow> differs_only_in_labels p (sanitize_graph_data p)"
proof (induction p)
  case (PDict items)
  let ?g = "\<lambda>kv. (fst kv,
                  case snd kv of
                    PStr s \<Rightarrow> if fst kv \<in> set designator_keys
                              then PStr (sanitize_relationship_type s)
                              else sanitize_graph_data (snd kv)
                  | _ \<Rightarrow> sanitize_graph_data (snd kv))"
  let ?R = "\<lambda>kv kv'.
              case snd kv of
                PStr s \<Rightarrow>
                  if fst kv \<in> set designator_keys
                  then (case snd kv' of PStr t \<Rightarrow> True | _ \<Rightarrow> False)
                  else differs_only_in_labels (snd kv) (snd kv')
              | _ \<Rightarrow> differs_only_in_labels (snd kv) (snd kv')"
  from PDict.prems have dist: "distinct (map fst items)" by simp
  have eq: "sanitize_graph_data (PDict items) = PDict (map ?g items)"
    using dist by (rule sanitize_graph_data_PDict)
  have step: "?R kv (?g kv)" if "kv \<in> set items" for kv
  proof -
    from that PDict.prems have wf: "well_formed (snd kv)"
      by (simp add: list_all_iff)
    have "snd kv \<in> Basic_BNFs.snds kv"
      by (cases kv) simp
    with that wf have ih: "differs_only_in_labels (snd kv) (sanitize_graph_data (snd kv))"
      using PDict.IH by blast
    then show ?thesis
      by (cases "snd kv") (simp_all del: sanitize_graph_data.simps)
  qed
  have "list_all2 ?R items (map ?g items)"
    unfolding list_all2_map2 using step by (rule list.rel_refl_strong)
  moreover have "map fst (map ?g items) = map fst items"
    by (simp add: comp_def)
  ultimately show ?case
    unfolding eq by simp
next
  case (PList xs)
  have "differs_only_in_labels x (sanitize_graph_data x)" if "x \<in> set xs" for x
    using that PList by (simp add: list_all_iff)
  then have "list_all2 differs_only_in_labels xs (map sanitize_graph_data xs)"
    unfolding list_all2_map2 by (rule list.rel_refl_strong)
  then show ?case by simp
next
  case (PStr s)
  show ?case by (rule differs_PStr)
next
  case (POther x)
  show ?case by simp
qed


theorem structural_fidelity_witness:
  "well_formed (PDict [(''entities'', PList [PDict [(''relationship_type'', PStr ''lives:in:city''),
                                                    (''since'', POther (1999::int))]]),
                       (''note'', PStr ''a:b'')])
   \<and> differs_only_in_labels
        (PDict [(''entities'', PList [PDict [(''relationship_type'', PStr ''lives:in:city''),
                                             (''since'', POther (1999::int))]]),
                (''note'', PStr ''a:b'')])
        (sanitize_graph_data
          (PDict [(''entities'', PList [PDict [(''relationship_type'', PStr ''lives:in:city''),
                                               (''since'', POther (1999::int))]]),
                  (''note'', PStr ''a:b'')]))
   \<and> sanitize_graph_data
        (PDict [(''entities'', PList [PDict [(''relationship_type'', PStr ''lives:in:city''),
                                             (''since'', POther (1999::int))]]),
                (''note'', PStr ''a:b'')])
      = PDict [(''entities'', PList [PDict [(''relationship_type'', PStr ''lives_in_city''),
                                            (''since'', POther 1999)]]),
               (''note'', PStr ''a:b'')]"
proof -
  let ?p = "PDict [(''entities'', PList [PDict [(''relationship_type'', PStr ''lives:in:city''),
                                                (''since'', POther (1999::int))]]),
                   (''note'', PStr ''a:b'')]"
  have wf: "well_formed ?p" by simp
  have val: "sanitize_graph_data ?p
      = PDict [(''entities'', PList [PDict [(''relationship_type'', PStr ''lives_in_city''),
                                            (''since'', POther 1999)]]),
               (''note'', PStr ''a:b'')]"
    by code_simp
  show ?thesis
    using wf val structural_fidelity [OF wf] by blast
qed

section \<open>The claims about the installer and its wrappers\<close>




text \<open>
  Claim C9. Each wrapper changes its first argument only: \<open>patched_add\<close> calls the
  original with the walked payload and the same filters, \<open>patched_query\<close> calls the
  original with the rewritten query and the same parameters, and each returns what the
  original returns. These wrappers are what a sub-installation puts in place of the
  entry point it finds, and what \<open>apply_all_patches\<close> leaves there when it returns.
\<close>

theorem wrappers_change_first_argument_only:
  "patched_add original_add self data filters
     = original_add self (sanitize_graph_data data) filters
   \<and> patched_query original_query this query params
     = original_query this (re_sub_edge query) params
   \<and> (GraphMemory_import w = None \<and> GraphMemory_add w = Inr original_add
        \<and> GraphMemory_setattr w = None
      \<longrightarrow> (\<exists>w'. patch_mem0_graph w = Inr w'
             \<and> GraphMemory_add w' = Inr (patched_add original_add))
          \<and> ((case patch_neo4j_queries_try w of Inl e \<Rightarrow> is_Exception e | Inr w2 \<Rightarrow> True)
              \<longrightarrow> (\<exists>w'. apply_all_patches w = Inr w'
                     \<and> GraphMemory_add w' = Inr (patched_add original_add))))
   \<and> (Neo4jGraph_import w = None \<and> Neo4jGraph_query w = Inr original_query
        \<and> Neo4jGraph_setattr w = None
      \<longrightarrow> (\<exists>w'. patch_neo4j_queries w = Inr w'
             \<and> Neo4jGraph_query w' = Inr (patched_query original_query))
          \<and> ((case patch_mem0_graph_try w of Inl e \<Rightarrow> is_Exception e | Inr w1 \<Rightarrow> True)
              \<longrightarrow> (\<exists>w'. apply_all_patches w = Inr w'
                     \<and> Neo4jGraph_query w' = Inr (patched_query original_query))))"
proof (intro conjI impI)
  show "patched_add original_add self data filters
     = original_add self (sanitize_graph_data data) filters"
    by (simp add: patched_add_def)
  show "patched_query original_query this query params
     = original_query this (re_sub_edge query) params"
    by (simp add: patched_query_def)
next
  assume a: "GraphMemory_import w = None \<and> GraphMemory_add w = Inr original_add
        \<and> GraphMemory_setattr w = None"
  then have t: "\<exists>w1. patch_mem0_graph_try w = Inr w1"
    by (simp add: patch_mem0_graph_try_def)
  then have h1: "case patch_mem0_graph_try w of Inl e \<Rightarrow> is_Exception e | Inr w1 \<Rightarrow> True"
    by auto
  then obtain w' where w': "patch_mem0_graph w = Inr w'"
    using patch_mem0_graph_returns by blast
  then show "\<exists>w'. patch_mem0_graph w = Inr w'
             \<and> GraphMemory_add w' = Inr (patched_add original_add)"
    using patch_mem0_graph_effect(1) [OF w'] a by simp
  assume "case patch_neo4j_queries_try w of Inl e \<Rightarrow> is_Exception e | Inr w2 \<Rightarrow> True"
  with h1 show "\<exists>w'. apply_all_patches w = Inr w'
             \<and> GraphMemory_add w' = Inr (patched_add original_add)"
    using apply_all_patches_result [of w] a by auto
next
  assume a: "Neo4jGraph_import w = None \<and> Neo4jGraph_query w = Inr original_query
        \<and> Neo4jGraph_setattr w = None"
  then have t: "\<exists>w2. patch_neo4j_queries_try w = Inr w2"
    by (simp add: patch_neo4j_queries_try_def)
  then have h2: "case patch_neo4j_queries_try w of Inl e \<Rightarrow> is_Exception e | Inr w2 \<Rightarrow> True"
    by auto
  then obtain w' where w': "patch_neo4j_queries w = Inr w'"
    using patch_neo4j_queries_returns by blast
  then show "\<exists>w'. patch_neo4j_queries w = Inr w'
             \<and> Neo4jGraph_query w' = Inr (patched_query original_query)"
    using patch_neo4j_queries_effect(1) [OF w'] a by simp
  assume "case patch_mem0_graph_try w of Inl e \<Rightarrow> is_Exception e | Inr w1 \<Rightarrow> True"
  with h2 show "\<exists>w'. apply_all_patches w = Inr w'
             \<and> Neo4jGraph_query w' = Inr (patched_query original_query)"
    using apply_all_patches_result [of w] a by auto
qed

theorem wrappers_change_first_argument_only_witness:
  "\<exists>w'. apply_all_patches
          \<lparr>GraphMemory_import = None,
           GraphMemory_add = Inr (\<lambda>(self :: unit) (data :: int payload)
                                    (filters :: string option). (self, data, filters)),
           GraphMemory_setattr = None,
           Neo4jGraph_import = None,
           Neo4jGraph_query = Inr (\<lambda>(self :: unit) query (params :: string option).
                                      (self, query, params)),
           Neo4jGraph_setattr = None,
           log = []\<rparr> = Inr w'
     \<and> (case GraphMemory_add w' of
          Inl e \<Rightarrow> False
        | Inr add \<Rightarrow>
            add () (PDict [(''type'', PStr ''a:b''), (''n'', POther 1)]) (Some ''user'')
              = ((), PDict [(''type'', PStr ''a_b''), (''n'', POther 1)], Some ''user''))"
proof -
  let ?add = "\<lambda>(self :: unit) (data :: int payload) (filters :: string option).
                (self, data, filters)"
  let ?query = "\<lambda>(self :: unit) (query :: string) (params :: string option).
                (self, query, params)"
  let ?w = "\<lparr>GraphMemory_import = None, GraphMemory_add = Inr ?add,
             GraphMemory_setattr = None, Neo4jGraph_import = None,
             Neo4jGraph_query = Inr ?query, Neo4jGraph_setattr = None, log = []\<rparr>"
  let ?data = "PDict [(''type'', PStr ''a:b''), (''n'', POther (1::int))]"
  note inst = wrappers_change_first_argument_only
    [of ?add "()" ?data "Some ''user''" ?query "()" "[]" None ?w]
  have val: "sanitize_graph_data ?data = PDict [(''type'', PStr ''a_b''), (''n'', POther 1)]"
    by code_simp
  have "\<exists>w2. patch_neo4j_queries_try ?w = Inr w2"
    by (simp add: patch_neo4j_queries_try_def)
  then have h2: "case patch_neo4j_queries_try ?w of Inl e \<Rightarrow> is_Exception e | Inr w2 \<Rightarrow> True"
    by auto
  from inst h2 obtain w' where w': "apply_all_patches ?w = Inr w'"
      "GraphMemory_add w' = Inr (patched_add ?add)"
    by auto
  moreover from inst val have "patched_add ?add () ?data (Some ''user'')
      = ((), PDict [(''type'', PStr ''a_b''), (''n'', POther 1)], Some ''user'')"
    by simp
  ultimately show ?thesis by auto
qed

section \<open>The claims about the query rewriter\<close>

text \<open>
  Claim C1 says that the sanitized token is put back at the token's position and that the
  rest of the matched span is kept. The callback calls \<^verbatim>\<open>full_match.replace\<close>, which
  rewrites every occurrence of the token's text in the span. For the query
  \<open>(a)-[:-]->(b)\<close> the pattern matches \<open>-[:-]->\<close> with the token \<open>-\<close>, the token is
  sanitized to the empty string, and the rewriter returns \<open>(a)[:]>(b)\<close> where the claim
  gives \<open>(a)-[:]->(b)\<close>; for \<open>-[r:r:r:]->\<close> it returns \<open>-[r_rr:]->\<close> where the claim
  gives \<open>-[r:r_r]->\<close>.
\<close>

theorem rewriter_replaces_token_text_everywhere:
  "match_edge ''-[:-]->(b)'' = Some (''-[:-]->'', ''-'', ''(b)'')
   \<and> sanitize_relationship_type ''-'' = []
   \<and> re_sub_edge ''(a)-[:-]->(b)'' = ''(a)[:]>(b)''
   \<and> match_edge ''-[r:r:r:]->'' = Some (''-[r:r:r:]->'', ''r:r:'', [])
   \<and> sanitize_relationship_type ''r:r:'' = ''r_r''
   \<and> re_sub_edge ''-[r:r:r:]->'' = ''-[r_rr:]->''"
  by code_simp

text \<open>
  Claim C2 says that a clause with any variable binding is recognised. The pattern
  names the letter \<open>r\<close>: a clause bound to \<open>rel\<close> is not matched, and the query is
  returned as it is although its token is not a clean one.
\<close>

theorem rewriter_skips_other_binding:
  "re_sub_edge ''MATCH (a)-[rel:WORKS:AT]->(b) RETURN a''
     = ''MATCH (a)-[rel:WORKS:AT]->(b) RETURN a''
   \<and> ''MATCH (a)-[rel:WORKS:AT]->(b) RETURN a''
     \<noteq> ''MATCH (a)-[rel:'' @ sanitize_relationship_type ''WORKS:AT'' @ '']->(b) RETURN a''"
  by code_simp

text \<open>
  Claim C2, amended. A clause \<open>-[v:TOKEN]->\<close> with a non-empty \<open>TOKEN\<close> free of \<open>]\<close> is
  matched by the pattern when \<open>v\<close> is the letter \<open>r\<close> or absent, and is not matched when
  \<open>v\<close> is any other non-empty text without a colon. When the scan reaches a matched
  clause (no earlier match runs into it) and the token's text occurs in the clause at
  the token's position only, the rewriter puts \<open>sanitize_relationship_type TOKEN\<close> in
  the token's place, keeps the rest of the clause, and rewrites the text before and
  after the clause on their own.
\<close>

theorem rewriter_recognises_edge:
  "((v = [] \<or> v = ''r'') \<and> rel_type \<noteq> [] \<and> CHR '']'' \<notin> set rel_type \<longrightarrow>
      match_edge (''-['' @ v @ '':'' @ rel_type @ '']->'' @ post)
        = Some (''-['' @ v @ '':'' @ rel_type @ '']->'', rel_type, post)
      \<and> (scan_reaches (length pre) (pre @ ''-['' @ v @ '':'' @ rel_type @ '']->'' @ post)
           \<and> occurrences rel_type (''-['' @ v @ '':'' @ rel_type @ '']->'')
               = [length (''-['' @ v @ '':'')]
         \<longrightarrow> re_sub_edge (pre @ ''-['' @ v @ '':'' @ rel_type @ '']->'' @ post)
               = re_sub_edge pre @ ''-['' @ v @ '':'' @ sanitize_relationship_type rel_type
                   @ '']->'' @ re_sub_edge post))
   \<and> (v \<noteq> [] \<and> v \<noteq> ''r'' \<and> CHR '':'' \<notin> set v \<longrightarrow>
        match_edge (''-['' @ v @ '':'' @ rel_type @ '']->'' @ post) = None)"
proof (intro conjI impI)
  assume a: "(v = [] \<or> v = ''r'') \<and> rel_type \<noteq> [] \<and> CHR '']'' \<notin> set rel_type"
  let ?clause = "''-['' @ v @ '':'' @ rel_type @ '']->''"
  have "match_edge (?clause @ post) = Some (?clause, rel_type, post)"
    unfolding match_edge_iff using a by blast
  then show m: "match_edge (''-['' @ v @ '':'' @ rel_type @ '']->'' @ post)
      = Some (?clause, rel_type, post)"
    by simp
  assume b: "scan_reaches (length pre) (pre @ ''-['' @ v @ '':'' @ rel_type @ '']->'' @ post)
      \<and> occurrences rel_type ?clause = [length (''-['' @ v @ '':'')]"
  let ?rest = "''-['' @ v @ '':'' @ rel_type @ '']->'' @ post"
  have "re_sub_edge (pre @ ?rest) = re_sub_edge (take (length pre) (pre @ ?rest))
      @ re_sub_edge (drop (length pre) (pre @ ?rest))"
    using b by (intro re_sub_edge_split) blast
  then have "re_sub_edge (pre @ ?rest) = re_sub_edge pre @ re_sub_edge ?rest"
    by simp
  also have "re_sub_edge ?rest = replace_relationship_type ?clause rel_type @ re_sub_edge post"
    using m by (rule re_sub_edge_match)
  also have "replace_relationship_type ?clause rel_type
      = (''-['' @ v @ '':'') @ sanitize_relationship_type rel_type @ '']->''"
  proof -
    have "occurrences rel_type ((''-['' @ v @ '':'') @ rel_type @ '']->'')
        = [length (''-['' @ v @ '':'')]"
      using b by simp
    then have "str_replace rel_type (sanitize_relationship_type rel_type)
          ((''-['' @ v @ '':'') @ rel_type @ '']->'')
        = (''-['' @ v @ '':'') @ sanitize_relationship_type rel_type @ '']->''"
      using a by (intro str_replace_once) blast+
    then show ?thesis
      by (simp add: replace_relationship_type_def)
  qed
  finally show "re_sub_edge (pre @ ''-['' @ v @ '':'' @ rel_type @ '']->'' @ post)
      = re_sub_edge pre @ ''-['' @ v @ '':'' @ sanitize_relationship_type rel_type
          @ '']->'' @ re_sub_edge post"
    by simp
next
  assume "v \<noteq> [] \<and> v \<noteq> ''r'' \<and> CHR '':'' \<notin> set v"
  then show "match_edge (''-['' @ v @ '':'' @ rel_type @ '']->'' @ post) = None"
    using match_edge_other_binding [of v "'':'' @ rel_type @ '']->'' @ post"] by blast
qed


theorem rewriter_recognises_edge_witness:
  "(''r'' = [] \<or> ''r'' = ''r'') \<and> ''WORKS:AT'' \<noteq> [] \<and> CHR '']'' \<notin> set ''WORKS:AT''
   \<and> scan_reaches (length ''MATCH (a)'') ''MATCH (a)-[r:WORKS:AT]->(b) RETURN a''
   \<and> occurrences ''WORKS:AT'' ''-[r:WORKS:AT]->'' = [length ''-[r:'']
   \<and> match_edge ''-[r:WORKS:AT]->(b) RETURN a''
       = Some (''-[r:WORKS:AT]->'', ''WORKS:AT'', ''(b) RETURN a'')
   \<and> re_sub_edge ''MATCH (a)-[r:WORKS:AT]->(b) RETURN a''
       = ''MATCH (a)-[r:WORKS_AT]->(b) RETURN a''"
proof -
  have v: "''r'' = [] \<or> ''r'' = ''r''" by simp
  have tok: "''WORKS:AT'' \<noteq> []" "CHR '']'' \<notin> set ''WORKS:AT''" by simp_all
  have reach: "scan_reaches (length ''MATCH (a)'') ''MATCH (a)-[r:WORKS:AT]->(b) RETURN a''"
    by code_simp
  have occ: "occurrences ''WORKS:AT'' ''-[r:WORKS:AT]->'' = [length ''-[r:'']"
    by code_simp
  have pre: "re_sub_edge ''MATCH (a)'' = ''MATCH (a)''"
    by code_simp
  have post: "re_sub_edge ''(b) RETURN a'' = ''(b) RETURN a''"
    by code_simp
  have san: "sanitize_relationship_type ''WORKS:AT'' = ''WORKS_AT''"
    by code_simp
  note inst = rewriter_recognises_edge
    [of "''r''" "''WORKS:AT''" "''(b) RETURN a''" "''MATCH (a)''"]
  from inst v tok have m: "match_edge ''-[r:WORKS:AT]->(b) RETURN a''
       = Some (''-[r:WORKS:AT]->'', ''WORKS:AT'', ''(b) RETURN a'')"
    by simp
  from inst v tok reach occ have "re_sub_edge ''MATCH (a)-[r:WORKS:AT]->(b) RETURN a''
      = re_sub_edge ''MATCH (a)'' @ ''-[r:'' @ sanitize_relationship_type ''WORKS:AT''
          @ '']->'' @ re_sub_edge ''(b) RETURN a''"
    by simp
  then have "re_sub_edge ''MATCH (a)-[r:WORKS:AT]->(b) RETURN a''
       = ''MATCH (a)-[r:WORKS_AT]->(b) RETURN a''"
    by (simp only: pre post san append_Cons append_Nil)
  with v tok reach occ m show ?thesis by blast
qed

end
